theory Spec2Isabelle
  imports Complex_Main
begin

section \<open>Python values used by nim.py\<close>

text \<open>
  Exceptions are values. \<open>Nim.move\<close> raises the generic \<open>Exception\<close> with a message;
  \<open>max\<close> of an empty iterable raises \<open>ValueError\<close>, \<open>random.choice\<close> of an empty sequence
  raises \<open>IndexError\<close>.
\<close>

datatype error = Exception string | ValueError | IndexError

text \<open>An action is the tuple \<open>(i, j)\<close>: take \<open>j\<close> objects from pile \<open>i\<close>. Python integers
  are unbounded, hence \<open>int\<close>.\<close>

type_synonym action = "int \<times> int"

text \<open>A pile configuration reaches the learner as a list (\<open>game.piles\<close>, or a copy of it)
  or as a tuple. The two kinds of object are kept apart, so that \<open>tuple(state)\<close> does
  something.\<close>

datatype pyseq = PyList "int list" | PyTuple "int list"

fun elems :: "pyseq \<Rightarrow> int list" where
  "elems (PyList xs) = xs"
| "elems (PyTuple xs) = xs"

text \<open>\<open>tuple(state)\<close>: the tuple with the elements of \<open>state\<close>.\<close>

definition tuple :: "pyseq \<Rightarrow> pyseq" where
  "tuple state = PyTuple (elems state)"

text \<open>
  Numbers: the rewards are the integers \<open>-1, 0, 1\<close>, the parameters and the table's values
  are floats. Both are modelled as \<open>real\<close>; rounding, infinities and NaN are not modelled.
  \<open>float("-inf")\<close>, the start value of the running maximum in \<open>choose_action\<close>, is the
  \<open>None\<close> of a \<open>real option\<close>.

  \<open>max(iterable)\<close>: the first element, then every later element that is greater replaces
  the running maximum; \<open>ValueError\<close> on an empty iterable.
\<close>

fun max_loop :: "real \<Rightarrow> real list \<Rightarrow> real" where
  "max_loop m [] = m"
| "max_loop m (x # rest) = max_loop (if x > m then x else m) rest"

fun py_max :: "real list \<Rightarrow> error + real" where
  "py_max [] = Inl ValueError"
| "py_max (x # rest) = Inr (max_loop x rest)"

text \<open>
  The order in which Python iterates over a set (also in \<open>list(a_set)\<close>) is not fixed by
  the language. A set object is modelled by the list of its elements in insertion order, and
  the iteration order is a parameter \<open>iter\<close> that rearranges this list.
\<close>

type_synonym set_iter = "action list \<Rightarrow> action list"

text \<open>
  The module \<open>random\<close>: what \<open>random.random()\<close> returns, and the raw integer from which
  \<open>random.choice(seq)\<close> takes the index \<open>_randbelow(len(seq))\<close>. Each call of
  \<open>choose_action\<close> calls each of them at most once.
\<close>

record random =
  random_random :: real
  randbelow :: nat

definition choice :: "random \<Rightarrow> 'a list \<Rightarrow> error + 'a" where
  "choice rnd xs = (if xs = [] then Inl IndexError else Inr (xs ! (randbelow rnd mod length xs)))"

section \<open>class Nim\<close>

record nim =
  piles :: "int list"
  player :: int
  winner :: "int option"

text \<open>\<open>Nim.__init__\<close>: \<open>self.piles = initial.copy(); self.player = 0; self.winner = None\<close>.\<close>

definition Nim_init :: "int list \<Rightarrow> nim" where
  "Nim_init initial = \<lparr>piles = initial, player = 0, winner = None\<rparr>"

text \<open>The inner loop \<open>for j in range(1, pile + 1): actions.add((i, j))\<close>;
  \<open>[1..pile]\<close> is empty when \<open>pile < 1\<close>, as the range is.\<close>

definition pile_actions :: "int \<Rightarrow> int \<Rightarrow> action list" where
  "pile_actions i pile = map (\<lambda>j. (i, j)) [1..pile]"

text \<open>The outer loop \<open>for i, pile in enumerate(piles)\<close>, started at index \<open>i\<close>. The list
  records the elements in the order the loops add them to the set.\<close>

fun enumerate_actions :: "int \<Rightarrow> int list \<Rightarrow> action list" where
  "enumerate_actions i [] = []"
| "enumerate_actions i (pile # rest) = pile_actions i pile @ enumerate_actions (i + 1) rest"

definition available_actions_list :: "int list \<Rightarrow> action list" where
  "available_actions_list ps = enumerate_actions 0 ps"

text \<open>\<open>Nim.available_actions\<close> returns the set built by the two loops.\<close>

definition available_actions :: "int list \<Rightarrow> action set" where
  "available_actions ps = set (available_actions_list ps)"

text \<open>\<open>Nim.other_player\<close>: \<open>return 0 if player == 1 else 1\<close>.\<close>

definition other_player :: "int \<Rightarrow> int" where
  "other_player p = (if p = 1 then 0 else 1)"

text \<open>\<open>Nim.switch_player\<close>.\<close>

definition switch_player :: "nim \<Rightarrow> nim" where
  "switch_player g = g\<lparr>player := other_player (player g)\<rparr>"

text \<open>\<open>all(pile == 0 for pile in self.piles)\<close>.\<close>

fun all_empty :: "int list \<Rightarrow> bool" where
  "all_empty [] = True"
| "all_empty (pile # rest) = (pile = 0 \<and> all_empty rest)"

text \<open>
  \<open>Nim.move\<close>. The result is the exception raised (\<open>None\<close> for a normal return) together
  with the game object as the call leaves it. The three checks come first, in the order of
  the source; \<open>self.piles[pile]\<close> is only read once \<open>0 \<le> pile < len(self.piles)\<close> is known.
\<close>

definition move :: "nim \<Rightarrow> action \<Rightarrow> error option \<times> nim" where
  "move g a =
     (case a of (pile, count) \<Rightarrow>
        if winner g \<noteq> None then (Some (Exception ''Game already won''), g)
        else if pile < 0 \<or> pile \<ge> int (length (piles g)) then (Some (Exception ''Invalid pile''), g)
        else if count < 1 \<or> count > piles g ! nat pile
          then (Some (Exception ''Invalid number of objects''), g)
        else
          (let g1 = g\<lparr>piles := (piles g)[nat pile := piles g ! nat pile - count]\<rparr>;
               g2 = switch_player g1
           in (None, if all_empty (piles g2) then g2\<lparr>winner := Some (player g2)\<rparr> else g2)))"

text \<open>The two error kinds of the specification, as the source raises them: both are the
  generic \<open>Exception\<close>, told apart by the message.\<close>

definition InvalidState :: "error \<Rightarrow> bool" where
  "InvalidState e = (e = Exception ''Game already won'')"

definition InvalidAction :: "error \<Rightarrow> bool" where
  "InvalidAction e = (e = Exception ''Invalid pile'' \<or> e = Exception ''Invalid number of objects'')"

text \<open>A caller making a sequence of \<open>move\<close> calls on one game object; a call that raises
  leaves the object as it was and the caller goes on with the next action.\<close>

fun play :: "nim \<Rightarrow> action list \<Rightarrow> nim" where
  "play g [] = g"
| "play g (a # rest) = play (snd (move g a)) rest"

text \<open>The number of calls in such a sequence that return normally.\<close>

fun accepted :: "nim \<Rightarrow> action list \<Rightarrow> nat" where
  "accepted g [] = 0"
| "accepted g (a # rest) =
     (case move g a of
        (None, g') \<Rightarrow> Suc (accepted g' rest)
      | (Some e, g') \<Rightarrow> accepted g' rest)"

text \<open>A policy that takes the first action the loops of \<open>available_actions\<close> produce.\<close>

definition first_action :: "int list \<Rightarrow> action" where
  "first_action ps = (case available_actions_list ps of [] \<Rightarrow> (0, 0) | a # rest \<Rightarrow> a)"

subsection \<open>One game, as the loop of \<open>train\<close> plays it\<close>

text \<open>
  The \<open>while True\<close> loop of \<open>train\<close>, without the learner's updates and with the choice of
  the action as a parameter: choose an action for the current piles, call \<open>move\<close>, stop when
  the winner is set. The result is the exception that ended the loop (if any), the game
  object at the end, and the number of moves made. The loop is defined by recursion on the
  number of objects that are left, which every accepted move makes smaller.
\<close>

lemma move_ok:
  assumes "winner g = None" "0 \<le> pile" "pile < int (length (piles g))"
    "1 \<le> count" "count \<le> piles g ! nat pile"
  shows "move g (pile, count) =
    (None, \<lparr>piles = (piles g)[nat pile := piles g ! nat pile - count],
            player = other_player (player g),
            winner = (if all_empty ((piles g)[nat pile := piles g ! nat pile - count])
                      then Some (other_player (player g)) else None)\<rparr>)"
  using assms by (simp add: move_def switch_player_def Let_def)

lemma move_accepted_iff:
  "fst (move g (pile, count)) = None \<longleftrightarrow>
     winner g = None \<and> 0 \<le> pile \<and> pile < int (length (piles g)) \<and> 1 \<le> count
       \<and> count \<le> piles g ! nat pile"
  by (auto simp: move_def Let_def)

lemma sum_list_nat_update:
  "n < length xs \<Longrightarrow> 0 \<le> v \<Longrightarrow> v < xs ! n \<Longrightarrow>
   sum_list (map nat (xs[n := v])) < sum_list (map nat xs)"
proof (induction xs arbitrary: n)
  case Nil then show ?case by simp
next
  case (Cons x xs)
  then show ?case by (cases n) auto
qed

lemma move_accepted_decreases:
  assumes "move g a = (None, g')"
  shows "sum_list (map nat (piles g')) < sum_list (map nat (piles g))"
proof -
  obtain pile count where a: "a = (pile, count)" by (cases a)
  from assms a have acc: "fst (move g (pile, count)) = None" by simp
  then have h: "winner g = None" "0 \<le> pile" "pile < int (length (piles g))" "1 \<le> count"
    "count \<le> piles g ! nat pile"
    by (simp_all add: move_accepted_iff)
  from h have n: "nat pile < length (piles g)" by linarith
  from assms a move_ok [OF h]
  have "piles g' = (piles g)[nat pile := piles g ! nat pile - count]" by auto
  with n h show ?thesis by (simp add: sum_list_nat_update)
qed

function episode :: "(int list \<Rightarrow> action) \<Rightarrow> nim \<Rightarrow> error option \<times> nim \<times> nat" where
  "episode policy g =
     (case move g (policy (piles g)) of
        (Some e, g') \<Rightarrow> (Some e, g', 0)
      | (None, g') \<Rightarrow>
          if winner g' \<noteq> None then (None, g', 1)
          else (case episode policy g' of (r, gf, n) \<Rightarrow> (r, gf, Suc n)))"
  by pat_completeness auto
termination
  by (relation "measure (\<lambda>(policy, g). sum_list (map nat (piles g)))")
     (auto simp: move_accepted_decreases)

declare episode.simps [simp del]

section \<open>class NimAI\<close>

text \<open>\<open>self.q\<close> is a dictionary from \<open>(tuple(state), action)\<close> to a number.\<close>

record nimai =
  q :: "pyseq \<times> action \<rightharpoonup> real"
  alpha :: real
  epsilon :: real

text \<open>\<open>NimAI.__init__\<close>.\<close>

definition NimAI_init :: "real \<Rightarrow> real \<Rightarrow> nimai" where
  "NimAI_init a e = \<lparr>q = Map.empty, alpha = a, epsilon = e\<rparr>"

text \<open>\<open>NimAI.get_q_value\<close>: \<open>state = tuple(state); return self.q.get((state, action), 0)\<close>.
  The method assigns to no attribute of \<open>self\<close>.\<close>

definition get_q_value :: "nimai \<Rightarrow> pyseq \<Rightarrow> action \<Rightarrow> real" where
  "get_q_value ai state action =
     (case q ai (tuple state, action) of None \<Rightarrow> 0 | Some v \<Rightarrow> v)"

text \<open>\<open>NimAI.update_q_value\<close>.\<close>

definition update_q_value :: "nimai \<Rightarrow> pyseq \<Rightarrow> action \<Rightarrow> real \<Rightarrow> real \<Rightarrow> real \<Rightarrow> nimai" where
  "update_q_value ai state action old_q reward future_rewards =
     (let new_estimate = reward + future_rewards
      in ai\<lparr>q := (q ai)((tuple state, action) \<mapsto> old_q + alpha ai * (new_estimate - old_q))\<rparr>)"

text \<open>\<open>NimAI.best_future_reward\<close>: \<open>if not actions: return 0\<close>, then \<open>max\<close> over the
  generator that iterates over the set of actions.\<close>

definition best_future_reward :: "set_iter \<Rightarrow> nimai \<Rightarrow> pyseq \<Rightarrow> error + real" where
  "best_future_reward iter ai state =
     (let actions = available_actions_list (elems state)
      in if actions = [] then Inr 0
         else py_max (map (get_q_value ai state) (iter actions)))"

text \<open>\<open>NimAI.update\<close>. The result is the exception raised (if any) and the learner as the
  call leaves it.\<close>

definition update ::
  "set_iter \<Rightarrow> nimai \<Rightarrow> pyseq \<Rightarrow> action \<Rightarrow> pyseq \<Rightarrow> real \<Rightarrow> error option \<times> nimai" where
  "update iter ai old_state action new_state reward =
     (let old = get_q_value ai old_state action
      in case best_future_reward iter ai new_state of
           Inl e \<Rightarrow> (Some e, ai)
         | Inr best_future \<Rightarrow> (None, update_q_value ai old_state action old reward best_future))"

text \<open>A caller making a sequence of \<open>update\<close> calls on one learner, as \<open>train\<close> does.\<close>

fun updates :: "set_iter \<Rightarrow> nimai \<Rightarrow> (pyseq \<times> action \<times> pyseq \<times> real) list \<Rightarrow> nimai" where
  "updates iter ai [] = ai"
| "updates iter ai ((old_state, action, new_state, reward) # rest) =
     updates iter (snd (update iter ai old_state action new_state reward)) rest"

text \<open>The loop of \<open>choose_action\<close> over \<open>actions\<close>, with the pair
  \<open>(max_q, best_actions)\<close> as its state.\<close>

fun best_loop ::
  "nimai \<Rightarrow> pyseq \<Rightarrow> action list \<Rightarrow> real option \<times> action list \<Rightarrow> real option \<times> action list" where
  "best_loop ai state [] (max_q, best_actions) = (max_q, best_actions)"
| "best_loop ai state (action # rest) (max_q, best_actions) =
     (let q_val = get_q_value ai state action
      in if (case max_q of None \<Rightarrow> True | Some m \<Rightarrow> q_val > m)
           then best_loop ai state rest (Some q_val, [action])
         else if max_q = Some q_val
           then best_loop ai state rest (max_q, best_actions @ [action])
         else best_loop ai state rest (max_q, best_actions))"

text \<open>\<open>NimAI.choose_action\<close>; \<open>explore\<close> is the parameter the source calls \<open>epsilon\<close>.
  The result is an exception, \<open>None\<close> or an action.\<close>

definition choose_action ::
  "set_iter \<Rightarrow> random \<Rightarrow> nimai \<Rightarrow> pyseq \<Rightarrow> bool \<Rightarrow> error + action option" where
  "choose_action iter rnd ai state explore =
     (let actions = iter (available_actions_list (elems state))
      in if actions = [] then Inr None
         else if explore \<and> random_random rnd < epsilon ai
           then (case choice rnd actions of Inl e \<Rightarrow> Inl e | Inr a \<Rightarrow> Inr (Some a))
         else (case choice rnd (snd (best_loop ai state actions (None, []))) of
                 Inl e \<Rightarrow> Inl e
               | Inr a \<Rightarrow> Inr (Some a)))"

text \<open>
  A call of one of the learner's methods, with what it returns and the learner object
  afterwards. Of the four methods only \<open>update\<close> (through \<open>update_q_value\<close>) assigns to
  \<open>self.q\<close>; the bodies of the other three contain no assignment to an attribute of
  \<open>self\<close> and no call that mutates the dictionary, so the object they leave is the one
  they were called on.
\<close>

datatype method_call =
    Update pyseq action pyseq real
  | GetQValue pyseq action
  | BestFutureReward pyseq
  | ChooseAction pyseq bool

datatype returned = Raised error | ReturnedNone | ReturnedNumber real | ReturnedAction action

fun call :: "set_iter \<Rightarrow> random \<Rightarrow> nimai \<Rightarrow> method_call \<Rightarrow> returned \<times> nimai" where
  "call iter rnd ai (Update old_state action new_state reward) =
     (case update iter ai old_state action new_state reward of
        (Some e, ai') \<Rightarrow> (Raised e, ai')
      | (None, ai') \<Rightarrow> (ReturnedNone, ai'))"
| "call iter rnd ai (GetQValue state action) = (ReturnedNumber (get_q_value ai state action), ai)"
| "call iter rnd ai (BestFutureReward state) =
     (case best_future_reward iter ai state of
        Inl e \<Rightarrow> (Raised e, ai)
      | Inr v \<Rightarrow> (ReturnedNumber v, ai))"
| "call iter rnd ai (ChooseAction state explore) =
     (case choose_action iter rnd ai state explore of
        Inl e \<Rightarrow> (Raised e, ai)
      | Inr None \<Rightarrow> (ReturnedNone, ai)
      | Inr (Some a) \<Rightarrow> (ReturnedAction a, ai))"

section \<open>The game engine: enumeration of the legal actions\<close>

lemma set_pile_actions: "set (pile_actions i pile) = {(i, j) | j. 1 \<le> j \<and> j \<le> pile}"
  by (auto simp: pile_actions_def)

lemma set_enumerate_actions:
  "set (enumerate_actions k ps) =
     {(i, j). k \<le> i \<and> i < k + int (length ps) \<and> 1 \<le> j \<and> j \<le> ps ! nat (i - k)}"
proof (induction ps arbitrary: k)
  case Nil
  then show ?case by auto
next
  case (Cons pile rest)
  have shift: "(pile # rest) ! nat (i - k) = rest ! nat (i - (k + 1))" if "k + 1 \<le> i" for i
  proof -
    from that have "nat (i - k) = Suc (nat (i - (k + 1)))" by simp
    then show ?thesis by simp
  qed
  show ?case
  proof (rule set_eqI, clarify)
    fix i j
    show "(i, j) \<in> set (enumerate_actions k (pile # rest)) \<longleftrightarrow>
          (i, j) \<in> {(i, j). k \<le> i \<and> i < k + int (length (pile # rest)) \<and> 1 \<le> j
                       \<and> j \<le> (pile # rest) ! nat (i - k)}"
    proof (cases "i = k")
      case True
      then show ?thesis by (auto simp: set_pile_actions Cons.IH)
    next
      case False
      then show ?thesis using shift [of i] by (auto simp: set_pile_actions Cons.IH)
    qed
  qed
qed

lemma all_empty_iff: "all_empty ps \<longleftrightarrow> (\<forall>p \<in> set ps. p = 0)"
  by (induction ps) auto

lemma available_actions_char:
  "available_actions ps =
     {(i, j). 0 \<le> i \<and> i < int (length ps) \<and> 1 \<le> j \<and> j \<le> ps ! nat i}"
  unfolding available_actions_def available_actions_list_def set_enumerate_actions
  by auto

lemma available_actions_empty_iff:
  assumes "\<forall>p \<in> set ps. 0 \<le> p"
  shows "available_actions ps = {} \<longleftrightarrow> all_empty ps"
proof
  assume empty: "available_actions ps = {}"
  have "p = 0" if "p \<in> set ps" for p
  proof (rule ccontr)
    assume "p \<noteq> 0"
    with assms that have pos: "0 < p" by force
    from that obtain n where n: "n < length ps" "ps ! n = p"
      by (auto simp: in_set_conv_nth)
    with pos have "(int n, 1) \<in> available_actions ps"
      unfolding available_actions_char by auto
    with empty show False by simp
  qed
  then show "all_empty ps" by (simp add: all_empty_iff)
next
  assume "all_empty ps"
  then have "ps ! nat i = 0" if "0 \<le> i" "i < int (length ps)" for i
    using that by (simp add: all_empty_iff)
  then show "available_actions ps = {}"
    unfolding available_actions_char by auto
qed

lemma finite_available_actions: "finite (available_actions ps)"
  by (simp add: available_actions_def)

lemma available_actions_list_empty:
  "available_actions_list ps = [] \<longleftrightarrow> available_actions ps = {}"
  by (simp add: available_actions_def)

text \<open>
  C4. For every pile configuration, \<open>available_actions\<close> is exactly the set of pairs
  \<open>(i, j)\<close> with \<open>i\<close> a pile index, \<open>piles[i] > 0\<close> and \<open>1 \<le> j \<le> piles[i]\<close>; and for a
  configuration of non-negative integers the set is empty if and only if every pile is 0.
\<close>

theorem available_actions_exact:
  "available_actions ps =
     {(i, j). 0 \<le> i \<and> i < int (length ps) \<and> ps ! nat i > 0 \<and> 1 \<le> j \<and> j \<le> ps ! nat i}
   \<and> ((\<forall>p \<in> set ps. 0 \<le> p) \<longrightarrow> (available_actions ps = {} \<longleftrightarrow> all_empty ps))"
proof
  show "available_actions ps =
     {(i, j). 0 \<le> i \<and> i < int (length ps) \<and> ps ! nat i > 0 \<and> 1 \<le> j \<and> j \<le> ps ! nat i}"
    unfolding available_actions_char by auto
  show "(\<forall>p \<in> set ps. 0 \<le> p) \<longrightarrow> (available_actions ps = {} \<longleftrightarrow> all_empty ps)"
    by (simp add: available_actions_empty_iff)
qed

theorem available_actions_exact_witness:
  "available_actions [0, 0, 0, 1] = {(3, 1)}
   \<and> available_actions [0, 0, 0, 0] = {} \<and> all_empty [0, 0, 0, 0]"
proof -
  have nonneg: "\<forall>p \<in> set [0, 0, 0, 0 :: int]. 0 \<le> p" by simp
  have "available_actions [0, 0, 0, 0] = {} \<longleftrightarrow> all_empty [0, 0, 0, 0]"
    using available_actions_exact [THEN conjunct2, THEN mp, OF nonneg] .
  moreover have "available_actions [0, 0, 0, 1] = {(3, 1)}"
    by (simp add: available_actions_def available_actions_list_def pile_actions_def)
  ultimately show ?thesis by simp
qed

section \<open>The game engine: applying a move\<close>

lemma move_won: "winner g \<noteq> None \<Longrightarrow> move g a = (Some (Exception ''Game already won''), g)"
  by (cases a) (simp add: move_def)

lemma move_bad_pile:
  "winner g = None \<Longrightarrow> pile < 0 \<or> pile \<ge> int (length (piles g)) \<Longrightarrow>
   move g (pile, count) = (Some (Exception ''Invalid pile''), g)"
  by (simp add: move_def)

lemma move_bad_count:
  "winner g = None \<Longrightarrow> 0 \<le> pile \<Longrightarrow> pile < int (length (piles g)) \<Longrightarrow>
   count < 1 \<or> count > piles g ! nat pile \<Longrightarrow>
   move g (pile, count) = (Some (Exception ''Invalid number of objects''), g)"
  by (simp add: move_def)

lemma move_rejected_unchanged: "fst (move g a) \<noteq> None \<Longrightarrow> snd (move g a) = g"
  by (cases a) (auto simp: move_def Let_def split: if_splits)

lemma sum_list_update_int:
  "n < length xs \<Longrightarrow> sum_list (xs[n := v]) = sum_list xs - xs ! n + (v::int)"
  by (induction xs arbitrary: n) (auto split: nat.splits)

text \<open>
  C2 as stated calls the winner the mover who emptied the piles. In the scenario of the claim
  itself player 0 makes the move that empties the piles, and the winner that \<open>move\<close> records
  is player 1, the player who did not move.
\<close>

theorem mover_is_not_winner_counterexample:
  "player \<lparr>piles = [0, 0, 0, 1], player = 0, winner = None\<rparr> = 0
   \<and> winner (snd (move \<lparr>piles = [0, 0, 0, 1], player = 0, winner = None\<rparr> (3, 1))) = Some 1
   \<and> winner (snd (move \<lparr>piles = [0, 0, 0, 1], player = 0, winner = None\<rparr> (3, 1)))
       \<noteq> Some (player \<lparr>piles = [0, 0, 0, 1], player = 0, winner = None\<rparr>)"
  by (simp add: move_def switch_player_def other_player_def Let_def)

text \<open>
  C2, with the winner named as the source sets it. On a game with no winner and a legal
  action \<open>(pile, count)\<close>, \<open>move\<close> returns normally, takes exactly \<open>count\<close> from
  \<open>piles[pile]\<close>, leaves every other pile as it was, makes the other player current, and sets
  the winner exactly when all piles are then zero: to the player that is current after the
  switch, which is the other player of the mover and never the mover who emptied the piles.
  From piles \<open>[0,0,0,1]\<close> with player 0, the action \<open>(3,1)\<close> gives piles \<open>[0,0,0,0]\<close>,
  player 1, winner 1.
\<close>

theorem move_legal:
  "(winner g = None \<and> 0 \<le> pile \<and> pile < int (length (piles g)) \<and> 1 \<le> count
      \<and> count \<le> piles g ! nat pile \<longrightarrow>
    (\<exists>g'. move g (pile, count) = (None, g')
      \<and> length (piles g') = length (piles g)
      \<and> piles g' ! nat pile = piles g ! nat pile - count
      \<and> (\<forall>i < length (piles g). i \<noteq> nat pile \<longrightarrow> piles g' ! i = piles g ! i)
      \<and> player g' = other_player (player g)
      \<and> (player g \<in> {0, 1} \<longrightarrow> player g' \<in> {0, 1} \<and> player g' \<noteq> player g)
      \<and> (all_empty (piles g') \<longrightarrow> winner g' = Some (player g'))
      \<and> (all_empty (piles g') \<longrightarrow> winner g' = Some (other_player (player g)))
      \<and> winner g' \<noteq> Some (player g)
      \<and> (\<not> all_empty (piles g') \<longrightarrow> winner g' = None)))
   \<and> move \<lparr>piles = [0, 0, 0, 1], player = 0, winner = None\<rparr> (3, 1)
       = (None, \<lparr>piles = [0, 0, 0, 0], player = 1, winner = Some 1\<rparr>)"
proof (intro conjI impI)
  assume h: "winner g = None \<and> 0 \<le> pile \<and> pile < int (length (piles g)) \<and> 1 \<le> count
      \<and> count \<le> piles g ! nat pile"
  then have n: "nat pile < length (piles g)" by linarith
  from h have "move g (pile, count) =
    (None, \<lparr>piles = (piles g)[nat pile := piles g ! nat pile - count],
            player = other_player (player g),
            winner = (if all_empty ((piles g)[nat pile := piles g ! nat pile - count])
                      then Some (other_player (player g)) else None)\<rparr>)"
    by (simp add: move_ok)
  with n show "\<exists>g'. move g (pile, count) = (None, g')
      \<and> length (piles g') = length (piles g)
      \<and> piles g' ! nat pile = piles g ! nat pile - count
      \<and> (\<forall>i < length (piles g). i \<noteq> nat pile \<longrightarrow> piles g' ! i = piles g ! i)
      \<and> player g' = other_player (player g)
      \<and> (player g \<in> {0, 1} \<longrightarrow> player g' \<in> {0, 1} \<and> player g' \<noteq> player g)
      \<and> (all_empty (piles g') \<longrightarrow> winner g' = Some (player g'))
      \<and> (all_empty (piles g') \<longrightarrow> winner g' = Some (other_player (player g)))
      \<and> winner g' \<noteq> Some (player g)
      \<and> (\<not> all_empty (piles g') \<longrightarrow> winner g' = None)"
    by (auto simp: other_player_def)
next
  show "move \<lparr>piles = [0, 0, 0, 1], player = 0, winner = None\<rparr> (3, 1)
       = (None, \<lparr>piles = [0, 0, 0, 0], player = 1, winner = Some 1\<rparr>)"
    by (simp add: move_def switch_player_def other_player_def Let_def)
qed

theorem move_legal_witness:
  "(\<exists>g'. move \<lparr>piles = [1, 3, 5, 7], player = 0, winner = None\<rparr> (2, 4) = (None, g')
      \<and> piles g' = [1, 3, 1, 7] \<and> player g' = 1 \<and> winner g' = None)
   \<and> (\<exists>g'. move \<lparr>piles = [0, 2], player = 1, winner = None\<rparr> (1, 2) = (None, g')
      \<and> piles g' = [0, 0] \<and> player g' = 0 \<and> winner g' = Some 0)"
proof
  let ?g = "\<lparr>piles = [1, 3, 5, 7], player = 0, winner = None\<rparr>"
  have pre: "winner ?g = None \<and> 0 \<le> (2::int) \<and> 2 < int (length (piles ?g)) \<and> 1 \<le> (4::int)
      \<and> 4 \<le> piles ?g ! nat 2"
    by simp
  from move_legal [of ?g 2 4, THEN conjunct1, THEN mp, OF pre]
  obtain g' where g': "move ?g (2, 4) = (None, g')" "length (piles g') = length (piles ?g)"
    "piles g' ! nat 2 = piles ?g ! nat 2 - 4"
    "\<forall>i < length (piles ?g). i \<noteq> nat 2 \<longrightarrow> piles g' ! i = piles ?g ! i"
    "player g' = other_player (player ?g)"
    "\<not> all_empty (piles g') \<longrightarrow> winner g' = None"
    by blast
  have "piles g' = [1, 3, 1, 7]"
  proof (rule nth_equalityI)
    show "length (piles g') = length [1, 3, 1, 7::int]" using g'(2) by simp
    fix i assume "i < length (piles g')"
    with g'(2) have "i < 4" by simp
    then consider "i = 0" | "i = 1" | "i = 2" | "i = 3" by linarith
    then show "piles g' ! i = [1, 3, 1, 7] ! i"
      using g'(3,4) by cases simp_all
  qed
  moreover from this g'(6) have "winner g' = None" by simp
  moreover from g'(5) have "player g' = 1" by (simp add: other_player_def)
  ultimately show "\<exists>g'. move ?g (2, 4) = (None, g')
      \<and> piles g' = [1, 3, 1, 7] \<and> player g' = 1 \<and> winner g' = None"
    using g'(1) by blast
next
  let ?g = "\<lparr>piles = [0, 2], player = 1, winner = None\<rparr>"
  have pre: "winner ?g = None \<and> 0 \<le> (1::int) \<and> 1 < int (length (piles ?g)) \<and> 1 \<le> (2::int)
      \<and> 2 \<le> piles ?g ! nat 1"
    by simp
  from move_legal [of ?g 1 2, THEN conjunct1, THEN mp, OF pre]
  obtain g' where g': "move ?g (1, 2) = (None, g')" "length (piles g') = length (piles ?g)"
    "piles g' ! nat 1 = piles ?g ! nat 1 - 2"
    "\<forall>i < length (piles ?g). i \<noteq> nat 1 \<longrightarrow> piles g' ! i = piles ?g ! i"
    "player g' = other_player (player ?g)"
    "all_empty (piles g') \<longrightarrow> winner g' = Some (other_player (player ?g))"
    "winner g' \<noteq> Some (player ?g)"
    by blast
  have "piles g' = [0, 0]"
  proof (rule nth_equalityI)
    show "length (piles g') = length [0, 0::int]" using g'(2) by simp
    fix i assume "i < length (piles g')"
    with g'(2) have "i < 2" by simp
    then consider "i = 0" | "i = 1" by linarith
    then show "piles g' ! i = [0, 0] ! i"
      using g'(3,4) by cases simp_all
  qed
  moreover from this g'(6) have "winner g' = Some 0" by (simp add: other_player_def)
  moreover from g'(5) have "player g' = 0" by (simp add: other_player_def)
  ultimately show "\<exists>g'. move ?g (1, 2) = (None, g')
      \<and> piles g' = [0, 0] \<and> player g' = 0 \<and> winner g' = Some 0"
    using g'(1) by blast
qed

text \<open>
  C5. \<open>move\<close> on a game whose winner is set always raises the error of kind InvalidState. A
  pile index out of range or a count outside \<open>[1, piles[pile]]\<close> makes \<open>move\<close> raise as well:
  an error of kind InvalidAction when the game has no winner (when it has one, the check of
  the winner comes first and the error is the InvalidState one). Whenever \<open>move\<close> raises, the
  game object (piles, player, winner) is what it was before the call.
\<close>

theorem move_rejects:
  "(winner g \<noteq> None \<longrightarrow> (\<exists>e. move g a = (Some e, g) \<and> InvalidState e))
   \<and> (pile < 0 \<or> pile \<ge> int (length (piles g)) \<or> count < 1 \<or> count > piles g ! nat pile \<longrightarrow>
        (\<exists>e. move g (pile, count) = (Some e, g)
           \<and> (if winner g = None then InvalidAction e else InvalidState e)))
   \<and> (fst (move g a) \<noteq> None \<longrightarrow> snd (move g a) = g)"
proof (intro conjI impI)
  assume "winner g \<noteq> None"
  then show "\<exists>e. move g a = (Some e, g) \<and> InvalidState e"
    by (simp add: move_won InvalidState_def)
next
  assume h: "pile < 0 \<or> pile \<ge> int (length (piles g)) \<or> count < 1 \<or> count > piles g ! nat pile"
  show "\<exists>e. move g (pile, count) = (Some e, g)
           \<and> (if winner g = None then InvalidAction e else InvalidState e)"
  proof (cases "winner g = None")
    case False
    then show ?thesis by (auto simp: move_won InvalidState_def)
  next
    case True
    show ?thesis
    proof (cases "pile < 0 \<or> pile \<ge> int (length (piles g))")
      case bad: True
      with True show ?thesis by (simp add: move_bad_pile InvalidAction_def)
    next
      case ok: False
      with h have "count < 1 \<or> count > piles g ! nat pile" by blast
      with True ok show ?thesis by (simp add: move_bad_count InvalidAction_def)
    qed
  qed
next
  assume "fst (move g a) \<noteq> None"
  then show "snd (move g a) = g" by (rule move_rejected_unchanged)
qed

theorem move_rejects_witness:
  "move \<lparr>piles = [0, 0, 0, 0], player = 1, winner = Some 1\<rparr> (3, 1)
     = (Some (Exception ''Game already won''), \<lparr>piles = [0, 0, 0, 0], player = 1, winner = Some 1\<rparr>)
   \<and> move \<lparr>piles = [1, 3, 5, 7], player = 0, winner = None\<rparr> (4, 1)
     = (Some (Exception ''Invalid pile''), \<lparr>piles = [1, 3, 5, 7], player = 0, winner = None\<rparr>)
   \<and> move \<lparr>piles = [1, 3, 5, 7], player = 0, winner = None\<rparr> (1, 4)
     = (Some (Exception ''Invalid number of objects''),
        \<lparr>piles = [1, 3, 5, 7], player = 0, winner = None\<rparr>)"
proof -
  let ?w = "\<lparr>piles = [0, 0, 0, 0], player = 1, winner = Some (1::int)\<rparr>"
  let ?g = "\<lparr>piles = [1, 3, 5, 7], player = 0, winner = None\<rparr>"
  have "winner ?w \<noteq> None" by simp
  with move_rejects [of ?w "(3, 1)", THEN conjunct1]
  have 1: "\<exists>e. move ?w (3, 1) = (Some e, ?w) \<and> InvalidState e" by blast
  have "(4::int) < 0 \<or> 4 \<ge> int (length (piles ?g)) \<or> (1::int) < 1 \<or> 1 > piles ?g ! nat 4"
    by simp
  with move_rejects [of ?g _ 4 1, THEN conjunct2, THEN conjunct1]
  have 2: "\<exists>e. move ?g (4, 1) = (Some e, ?g)
     \<and> (if winner ?g = None then InvalidAction e else InvalidState e)" by blast
  have "(1::int) < 0 \<or> 1 \<ge> int (length (piles ?g)) \<or> (4::int) < 1 \<or> 4 > piles ?g ! nat 1"
    by simp
  with move_rejects [of ?g _ 1 4, THEN conjunct2, THEN conjunct1]
  have 3: "\<exists>e. move ?g (1, 4) = (Some e, ?g)
     \<and> (if winner ?g = None then InvalidAction e else InvalidState e)" by blast
  have "fst (move ?g (4, 1)) \<noteq> None" by (simp add: move_def)
  with move_rejects [of ?g "(4, 1)", THEN conjunct2, THEN conjunct2]
  have 4: "snd (move ?g (4, 1)) = ?g" by blast
  from 1 2 3 4 show ?thesis
    by (simp add: move_def)
qed

section \<open>The game engine: the winner and the end of a game\<close>

lemma move_keeps_winner_iff:
  assumes "winner g \<noteq> None \<longleftrightarrow> all_empty (piles g)"
  shows "winner (snd (move g a)) \<noteq> None \<longleftrightarrow> all_empty (piles (snd (move g a)))"
proof (cases "fst (move g a) = None")
  case False
  then show ?thesis using assms by (simp add: move_rejected_unchanged)
next
  case True
  obtain pile count where a: "a = (pile, count)" by (cases a)
  from True a have "winner g = None \<and> 0 \<le> pile \<and> pile < int (length (piles g)) \<and> 1 \<le> count
       \<and> count \<le> piles g ! nat pile"
    by (simp add: move_accepted_iff)
  then show ?thesis by (simp add: a move_ok)
qed

lemma move_keeps_winner_current:
  assumes "winner g \<noteq> None \<longrightarrow> winner g = Some (player g)"
  shows "winner (snd (move g a)) \<noteq> None \<longrightarrow>
         winner (snd (move g a)) = Some (player (snd (move g a)))"
proof (cases "fst (move g a) = None")
  case False
  then show ?thesis using assms by (simp add: move_rejected_unchanged)
next
  case True
  obtain pile count where a: "a = (pile, count)" by (cases a)
  from True a have "winner g = None \<and> 0 \<le> pile \<and> pile < int (length (piles g)) \<and> 1 \<le> count
       \<and> count \<le> piles g ! nat pile"
    by (simp add: move_accepted_iff)
  then show ?thesis by (simp add: a move_ok)
qed

lemma play_keeps_invariant:
  assumes "winner g \<noteq> None \<longleftrightarrow> all_empty (piles g)"
    and "winner g \<noteq> None \<longrightarrow> winner g = Some (player g)"
  shows "(winner (play g as) \<noteq> None \<longleftrightarrow> all_empty (piles (play g as)))
       \<and> (winner (play g as) \<noteq> None \<longrightarrow> winner (play g as) = Some (player (play g as)))"
  using assms
proof (induction as arbitrary: g)
  case Nil
  then show ?case by simp
next
  case (Cons a as)
  show ?case
    using Cons.IH [OF move_keeps_winner_iff [OF Cons.prems(1)]
                      move_keeps_winner_current [OF Cons.prems(2)]]
    by simp
qed

lemma play_won: "winner g \<noteq> None \<Longrightarrow> play g bs = g"
  by (induction bs) (simp_all add: move_won)

lemma positive_not_all_empty: "ps \<noteq> [] \<Longrightarrow> \<forall>p \<in> set ps. 0 < p \<Longrightarrow> \<not> all_empty ps"
  by (cases ps) auto

text \<open>
  C8 as stated fails for the empty sequence of piles, which is (vacuously) a sequence of
  positive sizes: the game \<open>Nim([])\<close> has all its piles at zero and no winner.
\<close>

theorem empty_game_counterexample:
  "winner (play (Nim_init []) []) = None \<and> all_empty (piles (play (Nim_init []) []))"
  by (simp add: Nim_init_def)

text \<open>
  C8, for a non-empty sequence. In every state that a game created from a non-empty
  sequence of positive pile sizes reaches through calls of \<open>move\<close>, the winner is set if and
  only if all piles are zero; and once the winner is set it is the current player, every
  further call of \<open>move\<close> raises the InvalidState error, and no sequence of calls changes the
  game any more.
\<close>

theorem winner_iff_all_empty:
  assumes "ps \<noteq> []" and "\<forall>p \<in> set ps. 0 < p"
  shows "(winner (play (Nim_init ps) as) \<noteq> None \<longleftrightarrow> all_empty (piles (play (Nim_init ps) as)))
    \<and> (winner (play (Nim_init ps) as) \<noteq> None \<longrightarrow>
         winner (play (Nim_init ps) as) = Some (player (play (Nim_init ps) as))
         \<and> (\<forall>a. \<exists>e. move (play (Nim_init ps) as) a = (Some e, play (Nim_init ps) as)
                   \<and> InvalidState e)
         \<and> (\<forall>bs. play (play (Nim_init ps) as) bs = play (Nim_init ps) as))"
proof -
  let ?g = "play (Nim_init ps) as"
  from assms have "\<not> all_empty ps" by (rule positive_not_all_empty)
  then have init: "winner (Nim_init ps) \<noteq> None \<longleftrightarrow> all_empty (piles (Nim_init ps))"
    "winner (Nim_init ps) \<noteq> None \<longrightarrow> winner (Nim_init ps) = Some (player (Nim_init ps))"
    by (simp_all add: Nim_init_def)
  note inv = play_keeps_invariant [OF init, of as]
  have "\<exists>e. move ?g a = (Some e, ?g) \<and> InvalidState e" if "winner ?g \<noteq> None" for a
    using that by (simp add: move_won InvalidState_def)
  moreover have "play ?g bs = ?g" if "winner ?g \<noteq> None" for bs
    using that by (rule play_won)
  ultimately show ?thesis using inv by blast
qed

theorem winner_iff_all_empty_witness:
  "winner (play (Nim_init [1, 2]) [(1, 2), (0, 1)]) = Some 0
   \<and> all_empty (piles (play (Nim_init [1, 2]) [(1, 2), (0, 1)]))
   \<and> player (play (Nim_init [1, 2]) [(1, 2), (0, 1)]) = 0
   \<and> winner (play (Nim_init [1, 2]) [(1, 2)]) = None
   \<and> \<not> all_empty (piles (play (Nim_init [1, 2]) [(1, 2)]))
   \<and> play (play (Nim_init [1, 2]) [(1, 2), (0, 1)]) [(0, 1)] = play (Nim_init [1, 2]) [(1, 2), (0, 1)]"
proof -
  define g where "g = play (Nim_init [1, 2]) [(1, 2), (0, 1)]"
  define h where "h = play (Nim_init [1, 2]) [(1, 2)]"
  have ne: "[1, 2 :: int] \<noteq> []" and pos: "\<forall>p \<in> set [1, 2 :: int]. 0 < p" by simp_all
  have w: "winner g = Some 0"
    unfolding g_def by (simp add: Nim_init_def move_def switch_player_def other_player_def Let_def)
  then have w': "winner g \<noteq> None" by simp
  have n: "winner h = None"
    unfolding h_def by (simp add: Nim_init_def move_def switch_player_def other_player_def Let_def)
  note tg = winner_iff_all_empty [OF ne pos, of "[(1, 2), (0, 1)]", folded g_def]
  note th = winner_iff_all_empty [OF ne pos, of "[(1, 2)]", folded h_def]
  from tg w' have 1: "all_empty (piles g)" by blast
  from tg w' have "winner g = Some (player g)" by blast
  with w have 2: "player g = 0" by simp
  from tg w' have 3: "play g [(0, 1)] = g" by blast
  from th n have 4: "\<not> all_empty (piles h)" by blast
  from w 1 2 n 4 3 show ?thesis unfolding g_def h_def by blast
qed

lemma move_accepted_sum:
  assumes "fst (move g (pile, count)) = None"
  shows "1 \<le> count \<and> sum_list (piles (snd (move g (pile, count)))) = sum_list (piles g) - count"
proof -
  from assms have h: "winner g = None" "0 \<le> pile" "pile < int (length (piles g))" "1 \<le> count"
    "count \<le> piles g ! nat pile"
    by (simp_all add: move_accepted_iff)
  from h have n: "nat pile < length (piles g)" by linarith
  from n h show ?thesis by (simp add: move_ok [OF h] sum_list_update_int)
qed

lemma move_keeps_nonneg:
  assumes "\<forall>p \<in> set (piles g). 0 \<le> p"
  shows "\<forall>p \<in> set (piles (snd (move g a))). 0 \<le> p"
proof (cases "fst (move g a) = None")
  case False
  then show ?thesis using assms by (simp add: move_rejected_unchanged)
next
  case True
  obtain pile count where a: "a = (pile, count)" by (cases a)
  from True a have h: "winner g = None" "0 \<le> pile" "pile < int (length (piles g))" "1 \<le> count"
    "count \<le> piles g ! nat pile"
    by (simp_all add: move_accepted_iff)
  have "set ((piles g)[nat pile := piles g ! nat pile - count])
          \<subseteq> insert (piles g ! nat pile - count) (set (piles g))"
    by (rule set_update_subset_insert)
  with assms h show ?thesis by (auto simp: a move_ok [OF h])
qed

lemma sum_list_nonneg_int: "\<forall>p \<in> set ps. (0::int) \<le> p \<Longrightarrow> 0 \<le> sum_list ps"
  by (induction ps) auto

lemma accepted_bound:
  assumes "\<forall>p \<in> set (piles g). 0 \<le> p"
  shows "int (accepted g as) \<le> sum_list (piles g)"
  using assms
proof (induction as arbitrary: g)
  case Nil
  then show ?case by (simp add: sum_list_nonneg_int)
next
  case (Cons a as)
  obtain pile count where a: "a = (pile, count)" by (cases a)
  obtain r g' where m: "move g a = (r, g')" by (cases "move g a")
  from move_keeps_nonneg [OF Cons.prems, of a] m have nn: "\<forall>p \<in> set (piles g'). 0 \<le> p" by simp
  note ih = Cons.IH [OF nn]
  show ?case
  proof (cases r)
    case None
    with m a have "fst (move g (pile, count)) = None" by simp
    from move_accepted_sum [OF this] m a
    have "1 \<le> count" "sum_list (piles g') = sum_list (piles g) - count" by simp_all
    with ih None m show ?thesis by simp
  next
    case (Some e)
    with m have "fst (move g a) \<noteq> None" by simp
    then have "snd (move g a) = g" by (rule move_rejected_unchanged)
    with m have "g' = g" by simp
    with ih Some m show ?thesis by simp
  qed
qed

lemma episode_reaches_winner:
  assumes "\<And>qs. available_actions qs \<noteq> {} \<Longrightarrow> policy qs \<in> available_actions qs"
    and "\<forall>p \<in> set (piles g). 0 \<le> p" and "winner g = None" and "\<not> all_empty (piles g)"
  shows "\<exists>gf n. episode policy g = (None, gf, n) \<and> winner gf \<noteq> None \<and> all_empty (piles gf)
           \<and> 1 \<le> n \<and> int n \<le> sum_list (piles g)"
  using assms
proof (induction policy g rule: episode.induct)
  case (1 policy g)
  obtain pile count where pc: "policy (piles g) = (pile, count)" by (cases "policy (piles g)")
  from "1.prems"(2,4) have "available_actions (piles g) \<noteq> {}"
    by (simp add: available_actions_empty_iff)
  then have "policy (piles g) \<in> available_actions (piles g)" by (rule "1.prems"(1))
  with pc have h: "winner g = None" "0 \<le> pile" "pile < int (length (piles g))" "1 \<le> count"
    "count \<le> piles g ! nat pile"
    using "1.prems"(3) by (simp_all add: available_actions_char)
  define g' where "g' = snd (move g (pile, count))"
  have acc: "fst (move g (pile, count)) = None" using h by (simp add: move_accepted_iff)
  then have m: "move g (policy (piles g)) = (None, g')"
    unfolding g'_def pc by (cases "move g (pile, count)") simp
  have nn: "\<forall>p \<in> set (piles g'). 0 \<le> p"
    unfolding g'_def using "1.prems"(2) by (rule move_keeps_nonneg)
  from move_accepted_sum [OF acc]
  have total: "sum_list (piles g') = sum_list (piles g) - count" by (simp add: g'_def)
  have "winner g \<noteq> None \<longleftrightarrow> all_empty (piles g)" using "1.prems"(3,4) by simp
  then have wi: "winner g' \<noteq> None \<longleftrightarrow> all_empty (piles g')"
    unfolding g'_def by (rule move_keeps_winner_iff)
  from nn have low: "0 \<le> sum_list (piles g')" by (rule sum_list_nonneg_int)
  show ?case
  proof (cases "winner g' = None")
    case False
    then have "episode policy g = (None, g', 1)"
      by (subst episode.simps) (simp add: m)
    with False wi total low h(4) show ?thesis by simp
  next
    case True
    with wi have ne: "\<not> all_empty (piles g')" by simp
    have "\<not> winner g' \<noteq> None" using True by simp
    from "1.IH" [OF m [symmetric] refl this "1.prems"(1) nn True ne]
    obtain gf n where r: "episode policy g' = (None, gf, n)" "winner gf \<noteq> None"
      "all_empty (piles gf)" "int n \<le> sum_list (piles g')"
      by blast
    from True r(1) have "episode policy g = (None, gf, Suc n)"
      by (subst episode.simps) (simp add: m)
    with r total h(4) show ?thesis by simp
  qed
qed

lemma first_action_legal:
  "available_actions qs \<noteq> {} \<Longrightarrow> first_action qs \<in> available_actions qs"
  by (auto simp: first_action_def available_actions_def split: list.splits)

text \<open>
  C9 as stated fails for an initial configuration without objects, such as the empty one:
  the game has no winner, no action is legal and any call of \<open>move\<close> raises. The loop that
  plays the game, run with the policy \<open>first_action\<close> (which hands \<open>move\<close> an action even
  where none is legal), ends on that exception after no move, without a winner.
\<close>

theorem zero_piles_counterexample:
  "winner (Nim_init []) = None \<and> sum_list (piles (Nim_init [])) = 0
   \<and> available_actions (piles (Nim_init [])) = {}
   \<and> move (Nim_init []) (0, 1) = (Some (Exception ''Invalid pile''), Nim_init [])
   \<and> episode first_action (Nim_init []) = (Some (Exception ''Invalid pile''), Nim_init [], 0)"
proof -
  have "episode first_action (Nim_init []) = (Some (Exception ''Invalid pile''), Nim_init [], 0)"
    by (subst episode.simps)
       (simp add: Nim_init_def first_action_def available_actions_list_def move_def)
  then show ?thesis
    by (simp add: Nim_init_def available_actions_def available_actions_list_def move_def)
qed

text \<open>
  C9, for an initial configuration with at least one object. Every call of \<open>move\<close> that
  returns normally takes \<open>count \<ge> 1\<close> objects from the total; non-negative piles stay
  non-negative, so the total stays at or above zero and no sequence of calls has more
  accepted moves than the total; and every game played with legal moves from an initial
  configuration of non-negative piles that are not all zero ends with the winner set, after
  at least one and at most as many moves as the initial piles hold objects.
\<close>

theorem every_episode_terminates:
  "(fst (move g (pile, count)) = None \<longrightarrow>
      1 \<le> count \<and> sum_list (piles (snd (move g (pile, count)))) = sum_list (piles g) - count)
   \<and> ((\<forall>p \<in> set (piles g). 0 \<le> p) \<longrightarrow>
        (\<forall>p \<in> set (piles (snd (move g a))). 0 \<le> p) \<and> 0 \<le> sum_list (piles (snd (move g a)))
        \<and> int (accepted g as) \<le> sum_list (piles g))
   \<and> ((\<forall>p \<in> set ps. 0 \<le> p) \<and> \<not> all_empty ps
        \<and> (\<forall>qs. available_actions qs \<noteq> {} \<longrightarrow> policy qs \<in> available_actions qs) \<longrightarrow>
        (\<exists>gf n. episode policy (Nim_init ps) = (None, gf, n) \<and> winner gf \<noteq> None
           \<and> all_empty (piles gf) \<and> 1 \<le> n \<and> int n \<le> sum_list ps))"
proof (intro conjI impI)
  assume "fst (move g (pile, count)) = None"
  then show "1 \<le> count" by (simp add: move_accepted_sum)
next
  assume "fst (move g (pile, count)) = None"
  then show "sum_list (piles (snd (move g (pile, count)))) = sum_list (piles g) - count"
    by (simp add: move_accepted_sum)
next
  assume nn: "\<forall>p \<in> set (piles g). 0 \<le> p"
  then show nn': "\<forall>p \<in> set (piles (snd (move g a))). 0 \<le> p" by (rule move_keeps_nonneg)
  then show "0 \<le> sum_list (piles (snd (move g a)))" by (rule sum_list_nonneg_int)
  from nn show "int (accepted g as) \<le> sum_list (piles g)" by (rule accepted_bound)
next
  assume h: "(\<forall>p \<in> set ps. 0 \<le> p) \<and> \<not> all_empty ps
        \<and> (\<forall>qs. available_actions qs \<noteq> {} \<longrightarrow> policy qs \<in> available_actions qs)"
  then have pol: "\<And>qs. available_actions qs \<noteq> {} \<Longrightarrow> policy qs \<in> available_actions qs"
    by blast
  from h have "\<forall>p \<in> set (piles (Nim_init ps)). 0 \<le> p" "winner (Nim_init ps) = None"
    "\<not> all_empty (piles (Nim_init ps))"
    by (simp_all add: Nim_init_def)
  from episode_reaches_winner [of policy, OF pol this]
  show "\<exists>gf n. episode policy (Nim_init ps) = (None, gf, n) \<and> winner gf \<noteq> None
           \<and> all_empty (piles gf) \<and> 1 \<le> n \<and> int n \<le> sum_list ps"
    by (simp add: Nim_init_def)
qed

theorem every_episode_terminates_witness:
  "sum_list (piles (snd (move (Nim_init [1, 2]) (1, 2)))) = 1
   \<and> 0 \<le> sum_list (piles (snd (move (Nim_init [1, 2]) (1, 2))))
   \<and> int (accepted (Nim_init [1, 2]) [(1, 2), (5, 5), (0, 1)]) \<le> 3
   \<and> (\<exists>gf n. episode first_action (Nim_init [1, 2]) = (None, gf, n) \<and> winner gf \<noteq> None
         \<and> all_empty (piles gf) \<and> 1 \<le> n \<and> int n \<le> 3)"
proof -
  let ?g = "Nim_init [1, 2]"
  have acc: "fst (move ?g (1, 2)) = None"
    by (simp add: Nim_init_def move_def Let_def)
  have nn: "\<forall>p \<in> set (piles ?g). 0 \<le> p" by (simp add: Nim_init_def)
  have pre: "(\<forall>p \<in> set [1, 2 :: int]. 0 \<le> p) \<and> \<not> all_empty [1, 2]
        \<and> (\<forall>qs. available_actions qs \<noteq> {} \<longrightarrow> first_action qs \<in> available_actions qs)"
    by (simp add: first_action_legal)
  note t = every_episode_terminates [of ?g 1 2 "(1, 2)" "[(1, 2), (5, 5), (0, 1)]" "[1, 2]" first_action]
  from t [THEN conjunct1, THEN mp, OF acc]
  have 1: "sum_list (piles (snd (move ?g (1, 2)))) = 1" by (simp add: Nim_init_def)
  from t [THEN conjunct2, THEN conjunct1, THEN mp, OF nn]
  have 2: "0 \<le> sum_list (piles (snd (move ?g (1, 2))))"
    and 3: "int (accepted ?g [(1, 2), (5, 5), (0, 1)]) \<le> 3"
    by (simp_all add: Nim_init_def)
  from t [THEN conjunct2, THEN conjunct2, THEN mp, OF pre]
  have 4: "\<exists>gf n. episode first_action ?g = (None, gf, n) \<and> winner gf \<noteq> None
         \<and> all_empty (piles gf) \<and> 1 \<le> n \<and> int n \<le> 3"
    by simp
  from 1 2 3 4 show ?thesis by blast
qed

section \<open>The learner: the table\<close>

lemma update_unfold:
  assumes "best_future_reward iter ai new_state = Inr future"
  shows "update iter ai old_state action new_state reward =
     (None, ai\<lparr>q := (q ai)((tuple old_state, action) \<mapsto>
        get_q_value ai old_state action
          + alpha ai * ((reward + future) - get_q_value ai old_state action))\<rparr>)"
  using assms by (simp add: update_def update_q_value_def Let_def)

lemma update_cases:
  "snd (update iter ai old_state action new_state reward) = ai
   \<or> (\<exists>v. snd (update iter ai old_state action new_state reward)
            = ai\<lparr>q := (q ai)((tuple old_state, action) \<mapsto> v)\<rparr>)"
  by (cases "best_future_reward iter ai new_state")
     (auto simp: update_def update_q_value_def Let_def)

lemma update_other_keys:
  "k \<noteq> (tuple old_state, action) \<Longrightarrow>
   q (snd (update iter ai old_state action new_state reward)) k = q ai k"
  using update_cases [of iter ai old_state action new_state reward] by auto

lemma update_dom_lower: "dom (q ai) \<subseteq> dom (q (snd (update iter ai old_state action new_state reward)))"
  using update_cases [of iter ai old_state action new_state reward] by auto

lemma update_dom_upper:
  "dom (q (snd (update iter ai old_state action new_state reward)))
     \<subseteq> insert (tuple old_state, action) (dom (q ai))"
  using update_cases [of iter ai old_state action new_state reward] by auto

lemma updates_other_keys:
  assumes "\<forall>u \<in> set us. (tuple (fst u), fst (snd u)) \<noteq> k"
  shows "q (updates iter ai us) k = q ai k"
  using assms
proof (induction us arbitrary: ai)
  case Nil
  then show ?case by simp
next
  case (Cons u us)
  obtain old_state action new_state reward where u: "u = (old_state, action, new_state, reward)"
    by (cases u)
  from Cons.prems u have "k \<noteq> (tuple old_state, action)" by auto
  then have "q (snd (update iter ai old_state action new_state reward)) k = q ai k"
    by (rule update_other_keys)
  moreover from Cons.prems have "\<forall>u \<in> set us. (tuple (fst u), fst (snd u)) \<noteq> k" by simp
  ultimately show ?case by (simp add: u Cons.IH)
qed

lemma tuple_eq: "elems s1 = elems s2 \<Longrightarrow> tuple s1 = tuple s2"
  by (simp add: tuple_def)

text \<open>
  C7. A pair of state and action whose key no call of \<open>update\<close> has written since the
  learner was created has the value 0, as every pair without an entry has; and the state is
  turned into a tuple before both the lookup and the write, so two states with the same
  elements (a list and a tuple, a copy and the original) read and write the same entry.
\<close>

theorem unseen_is_zero_and_keys_normalized:
  "((\<forall>u \<in> set us. (tuple (fst u), fst (snd u)) \<noteq> (tuple state, action)) \<longrightarrow>
      get_q_value (updates iter (NimAI_init al ep) us) state action = 0)
   \<and> (q ai (tuple state, action) = None \<longrightarrow> get_q_value ai state action = 0)
   \<and> (elems s1 = elems s2 \<longrightarrow>
        tuple s1 = tuple s2
        \<and> get_q_value ai s1 action = get_q_value ai s2 action
        \<and> update_q_value ai s1 action old reward future = update_q_value ai s2 action old reward future
        \<and> update iter ai s1 action new_state reward = update iter ai s2 action new_state reward
        \<and> get_q_value (update_q_value ai s1 action old reward future) s2 action
            = old + alpha ai * ((reward + future) - old))
   \<and> get_q_value ai (PyList xs) action = get_q_value ai (PyTuple xs) action"
proof (intro conjI impI)
  assume "\<forall>u \<in> set us. (tuple (fst u), fst (snd u)) \<noteq> (tuple state, action)"
  then have "q (updates iter (NimAI_init al ep) us) (tuple state, action)
      = q (NimAI_init al ep) (tuple state, action)"
    by (rule updates_other_keys)
  then show "get_q_value (updates iter (NimAI_init al ep) us) state action = 0"
    by (simp add: get_q_value_def NimAI_init_def)
next
  assume "q ai (tuple state, action) = None"
  then show "get_q_value ai state action = 0" by (simp add: get_q_value_def)
next
  assume e: "elems s1 = elems s2"
  then show t: "tuple s1 = tuple s2" by (rule tuple_eq)
  then show g: "get_q_value ai s1 action = get_q_value ai s2 action"
    by (simp add: get_q_value_def)
  from t show "update_q_value ai s1 action old reward future = update_q_value ai s2 action old reward future"
    by (simp add: update_q_value_def)
  from t g show "update iter ai s1 action new_state reward = update iter ai s2 action new_state reward"
    by (simp add: update_def update_q_value_def split: sum.splits)
  from t show "get_q_value (update_q_value ai s1 action old reward future) s2 action
            = old + alpha ai * ((reward + future) - old)"
    by (simp add: update_q_value_def get_q_value_def)
next
  show "get_q_value ai (PyList xs) action = get_q_value ai (PyTuple xs) action"
    by (simp add: get_q_value_def tuple_def)
qed

theorem unseen_is_zero_and_keys_normalized_witness:
  "get_q_value (updates rev (NimAI_init (1 / 2) (1 / 10))
      [(PyList [0, 0, 1, 0], (2, 1), PyList [0, 0, 0, 0], - 1)]) (PyTuple [0, 0, 2, 0]) (2, 1) = 0
   \<and> get_q_value (update_q_value (NimAI_init (1 / 2) (1 / 10)) (PyList [1, 3]) (0, 1) 0 (- 1) 0)
       (PyTuple [1, 3]) (0, 1) = - (1 / 2)
   \<and> get_q_value (NimAI_init (1 / 2) (1 / 10)) (PyList [1, 3, 5, 7]) (3, 7) = 0"
proof -
  let ?us = "[(PyList [0, 0, 1, 0], (2, 1), PyList [0, 0, 0, 0], - 1)] :: (pyseq \<times> action \<times> pyseq \<times> real) list"
  have pre: "\<forall>u \<in> set ?us. (tuple (fst u), fst (snd u)) \<noteq> (tuple (PyTuple [0, 0, 2, 0]), (2, 1))"
    by (simp add: tuple_def)
  from unseen_is_zero_and_keys_normalized [of ?us "PyTuple [0, 0, 2, 0]" "(2, 1)" rev "1 / 2" "1 / 10",
      THEN conjunct1, THEN mp, OF pre]
  have 1: "get_q_value (updates rev (NimAI_init (1 / 2) (1 / 10)) ?us) (PyTuple [0, 0, 2, 0]) (2, 1) = 0" .
  have e: "elems (PyList [1, 3]) = elems (PyTuple [1, 3])" by simp
  from unseen_is_zero_and_keys_normalized [of _ _ "(0, 1)" _ _ _ "NimAI_init (1 / 2) (1 / 10)"
      "PyList [1, 3]" "PyTuple [1, 3]" 0 "- 1" 0,
      THEN conjunct2, THEN conjunct2, THEN conjunct1, THEN mp, OF e]
  have "get_q_value (update_q_value (NimAI_init (1 / 2) (1 / 10)) (PyList [1, 3]) (0, 1) 0 (- 1) 0)
       (PyTuple [1, 3]) (0, 1) = 0 + alpha (NimAI_init (1 / 2) (1 / 10)) * ((- 1 + 0) - 0)"
    by blast
  then have 2: "get_q_value (update_q_value (NimAI_init (1 / 2) (1 / 10)) (PyList [1, 3]) (0, 1) 0 (- 1) 0)
       (PyTuple [1, 3]) (0, 1) = - (1 / 2)"
    by (simp add: NimAI_init_def)
  have "q (NimAI_init (1 / 2) (1 / 10)) (tuple (PyList [1, 3, 5, 7]), (3, 7)) = None"
    by (simp add: NimAI_init_def)
  from unseen_is_zero_and_keys_normalized [of _ "PyList [1, 3, 5, 7]" "(3, 7)" _ _ _
      "NimAI_init (1 / 2) (1 / 10)", THEN conjunct2, THEN conjunct1, THEN mp, OF this]
  have 3: "get_q_value (NimAI_init (1 / 2) (1 / 10)) (PyList [1, 3, 5, 7]) (3, 7) = 0" .
  from 1 2 3 show ?thesis by blast
qed

lemma call_reads:
  "snd (call iter rnd ai (GetQValue state action)) = ai"
  "snd (call iter rnd ai (BestFutureReward state)) = ai"
  "snd (call iter rnd ai (ChooseAction state explore)) = ai"
  by (auto split: sum.splits option.splits)

lemma call_dom_lower: "dom (q ai) \<subseteq> dom (q (snd (call iter rnd ai c)))"
proof (cases c)
  case (Update old_state action new_state reward)
  have "snd (call iter rnd ai c) = snd (update iter ai old_state action new_state reward)"
    unfolding Update by (cases "update iter ai old_state action new_state reward") (auto split: option.splits)
  then show ?thesis by (simp add: update_dom_lower)
qed (auto split: sum.splits option.splits)

text \<open>
  C10. No call of a method of the learner removes a key from the table. \<open>update\<close> leaves
  every entry other than the one for \<open>(tuple(old_state), action)\<close> as it was, so it adds at
  most this one key; \<open>get_q_value\<close>, \<open>best_future_reward\<close> and \<open>choose_action\<close> leave the
  learner as it was.
\<close>

theorem q_table_grows:
  "dom (q ai) \<subseteq> dom (q (snd (call iter rnd ai c)))
   \<and> dom (q ai) \<subseteq> dom (q (snd (update iter ai old_state action new_state reward)))
   \<and> dom (q (snd (update iter ai old_state action new_state reward)))
        \<subseteq> insert (tuple old_state, action) (dom (q ai))
   \<and> (\<forall>k. k \<noteq> (tuple old_state, action) \<longrightarrow>
         q (snd (update iter ai old_state action new_state reward)) k = q ai k)
   \<and> snd (call iter rnd ai (GetQValue state action')) = ai
   \<and> snd (call iter rnd ai (BestFutureReward state)) = ai
   \<and> snd (call iter rnd ai (ChooseAction state explore)) = ai"
  using call_dom_lower [of ai iter rnd c]
    update_dom_lower [of ai iter old_state action new_state reward]
    update_dom_upper [of iter ai old_state action new_state reward]
    update_other_keys [of _ old_state action iter ai new_state reward]
    call_reads [of iter rnd ai]
  by blast

theorem q_table_grows_witness:
  "q (snd (update rev \<lparr>q = [(PyTuple [0, 0, 0, 2], (3, 1)) \<mapsto> - (1 / 2)], alpha = 1 / 2, epsilon = 1 / 10\<rparr>
             (PyList [0, 0, 1, 0]) (2, 1) (PyList [0, 0, 0, 0]) (- 1)))
      (PyTuple [0, 0, 0, 2], (3, 1)) = Some (- (1 / 2))"
proof -
  let ?ai = "\<lparr>q = [(PyTuple [0, 0, 0, 2], (3, 1)) \<mapsto> - (1 / 2)], alpha = 1 / 2, epsilon = 1 / 10\<rparr>"
  let ?k = "(PyTuple [0, 0, 0, 2], (3, 1)) :: pyseq \<times> action"
  have ne: "?k \<noteq> (tuple (PyList [0, 0, 1, 0]), (2, 1))" by (simp add: tuple_def)
  from q_table_grows [of ?ai rev _ _ "PyList [0, 0, 1, 0]" "(2, 1)" "PyList [0, 0, 0, 0]" "- 1"]
  have "\<forall>k. k \<noteq> (tuple (PyList [0, 0, 1, 0]), (2, 1)) \<longrightarrow>
         q (snd (update rev ?ai (PyList [0, 0, 1, 0]) (2, 1) (PyList [0, 0, 0, 0]) (- 1))) k = q ?ai k"
    by blast
  with ne have "q (snd (update rev ?ai (PyList [0, 0, 1, 0]) (2, 1) (PyList [0, 0, 0, 0]) (- 1))) ?k = q ?ai ?k"
    by blast
  then show ?thesis by simp
qed

section \<open>The learner: the best value of a state\<close>

lemma max_loop_Max: "max_loop m xs = Max (insert m (set xs))"
proof (induction xs arbitrary: m)
  case Nil
  then show ?case by simp
next
  case (Cons x xs)
  have "Max (insert (max m x) (set xs)) = Max (insert m (insert x (set xs)))"
    by (cases "set xs = {}") (simp_all add: max.assoc)
  moreover have "(if x > m then x else m) = max m x" by (simp add: max_def)
  ultimately show ?case by (simp add: Cons.IH)
qed

lemma py_max_Max: "xs \<noteq> [] \<Longrightarrow> py_max xs = Inr (Max (set xs))"
  by (cases xs) (simp_all add: max_loop_Max)

lemma best_future_reward_empty:
  "available_actions (elems state) = {} \<Longrightarrow> best_future_reward iter ai state = Inr 0"
  by (simp add: best_future_reward_def available_actions_list_empty)

lemma best_future_reward_is_Max:
  assumes "set (iter (available_actions_list (elems state))) = available_actions (elems state)"
    and "available_actions (elems state) \<noteq> {}"
  shows "best_future_reward iter ai state =
           Inr (Max (get_q_value ai state ` available_actions (elems state)))"
proof -
  from assms have "iter (available_actions_list (elems state)) \<noteq> []" by auto
  then have "py_max (map (get_q_value ai state) (iter (available_actions_list (elems state))))
      = Inr (Max (get_q_value ai state ` set (iter (available_actions_list (elems state)))))"
    by (simp add: py_max_Max)
  with assms show ?thesis
    by (simp add: best_future_reward_def available_actions_list_empty)
qed

lemma best_future_reward_returns:
  assumes "\<And>xs. set (iter xs) = set xs"
  shows "\<exists>v. best_future_reward iter ai state = Inr v"
proof (cases "available_actions (elems state) = {}")
  case True
  then show ?thesis by (simp add: best_future_reward_empty)
next
  case False
  have "set (iter (available_actions_list (elems state))) = available_actions (elems state)"
    by (simp add: assms available_actions_def)
  from best_future_reward_is_Max [of iter state ai, OF this False] show ?thesis by blast
qed

text \<open>
  C6. \<open>best_future_reward\<close> never raises. It returns 0 for a state without legal actions,
  and otherwise the maximum of \<open>get_q_value\<close> over all legal actions of the state, which are
  enumerated from the state and not taken from the table: a legal action without an entry
  counts with the value 0, so that the result is then at least 0.
\<close>

theorem best_future_reward_max:
  assumes "\<And>xs. set (iter xs) = set xs"
  shows "(available_actions (elems state) = {} \<longrightarrow> best_future_reward iter ai state = Inr 0)
    \<and> (available_actions (elems state) \<noteq> {} \<longrightarrow>
         best_future_reward iter ai state =
           Inr (Max (get_q_value ai state ` available_actions (elems state))))
    \<and> (\<exists>v. best_future_reward iter ai state = Inr v)
    \<and> ((\<exists>a \<in> available_actions (elems state). q ai (tuple state, a) = None) \<longrightarrow>
         (\<exists>v. best_future_reward iter ai state = Inr v \<and> 0 \<le> v))"
proof -
  have it: "set (iter (available_actions_list (elems state))) = available_actions (elems state)"
    by (simp add: assms available_actions_def)
  note mx = best_future_reward_is_Max [of iter state ai, OF it]
  have 1: "available_actions (elems state) = {} \<longrightarrow> best_future_reward iter ai state = Inr 0"
    by (simp add: best_future_reward_empty)
  have 2: "available_actions (elems state) \<noteq> {} \<longrightarrow>
         best_future_reward iter ai state =
           Inr (Max (get_q_value ai state ` available_actions (elems state)))"
    using mx by blast
  from 1 2 have 3: "\<exists>v. best_future_reward iter ai state = Inr v" by blast
  have 4: "\<exists>v. best_future_reward iter ai state = Inr v \<and> 0 \<le> v"
    if "\<exists>a \<in> available_actions (elems state). q ai (tuple state, a) = None"
  proof -
    from that obtain a where a: "a \<in> available_actions (elems state)" "q ai (tuple state, a) = None"
      by blast
    then have "get_q_value ai state a = 0" by (simp add: get_q_value_def)
    with a(1) have "0 \<in> get_q_value ai state ` available_actions (elems state)" by force
    then have "0 \<le> Max (get_q_value ai state ` available_actions (elems state))"
      by (simp add: finite_available_actions)
    with a(1) mx show ?thesis by auto
  qed
  from 1 2 3 4 show ?thesis by blast
qed

theorem best_future_reward_max_witness:
  "best_future_reward rev \<lparr>q = [(PyTuple [0, 0, 0, 2], (3, 1)) \<mapsto> - (1 / 2)], alpha = 1 / 2, epsilon = 1 / 10\<rparr>
      (PyList [0, 0, 0, 2]) = Inr 0
   \<and> best_future_reward rev \<lparr>q = [(PyTuple [0, 0, 0, 2], (3, 1)) \<mapsto> - (1 / 2)], alpha = 1 / 2, epsilon = 1 / 10\<rparr>
      (PyList [0, 0, 0, 0]) = Inr 0
   \<and> (\<exists>v. best_future_reward rev \<lparr>q = [(PyTuple [0, 0, 0, 2], (3, 1)) \<mapsto> - (1 / 2)], alpha = 1 / 2, epsilon = 1 / 10\<rparr>
      (PyList [0, 0, 0, 2]) = Inr v \<and> 0 \<le> v)"
proof -
  let ?ai = "\<lparr>q = [(PyTuple [0, 0, 0, 2], (3, 1)) \<mapsto> - (1 / 2)], alpha = 1 / 2, epsilon = 1 / 10\<rparr>"
  have it: "\<And>xs :: action list. set (rev xs) = set xs" by simp
  have acts: "available_actions (elems (PyList [0, 0, 0, 2])) = {(3, 1), (3, 2)}"
    "available_actions (elems (PyList [0, 0, 0, 0])) = {}"
    by (auto simp: available_actions_def available_actions_list_def pile_actions_def upto.simps)
  have vals: "get_q_value ?ai (PyList [0, 0, 0, 2]) (3, 1) = - (1 / 2)"
    "get_q_value ?ai (PyList [0, 0, 0, 2]) (3, 2) = 0"
    by (simp_all add: get_q_value_def tuple_def)
  from best_future_reward_max [of rev "PyList [0, 0, 0, 2]" ?ai, OF it] acts(1)
  have "best_future_reward rev ?ai (PyList [0, 0, 0, 2]) =
          Inr (Max (get_q_value ?ai (PyList [0, 0, 0, 2]) ` {(3, 1), (3, 2)}))"
    by simp
  then have 1: "best_future_reward rev ?ai (PyList [0, 0, 0, 2]) = Inr 0"
    by (simp add: vals)
  from best_future_reward_max [of rev "PyList [0, 0, 0, 0]" ?ai, OF it] acts(2)
  have 2: "best_future_reward rev ?ai (PyList [0, 0, 0, 0]) = Inr 0" by simp
  have "\<exists>a \<in> available_actions (elems (PyList [0, 0, 0, 2])). q ?ai (tuple (PyList [0, 0, 0, 2]), a) = None"
    unfolding acts(1) by (simp add: tuple_def)
  from best_future_reward_max [of rev "PyList [0, 0, 0, 2]" ?ai, OF it,
      THEN conjunct2, THEN conjunct2, THEN conjunct2, THEN mp, OF this]
  have 3: "\<exists>v. best_future_reward rev ?ai (PyList [0, 0, 0, 2]) = Inr v \<and> 0 \<le> v" .
  from 1 2 3 show ?thesis by blast
qed

section \<open>The learner: the update rule\<close>

text \<open>
  C1. \<open>update\<close> returns normally and sets the entry for \<open>(tuple(old_state), action)\<close> to
  \<open>old + alpha * ((reward + future) - old)\<close>, where \<open>old\<close> is the value of the pair and
  \<open>future\<close> the best value of \<open>new_state\<close>, both before the call; nothing else of the learner
  changes. On a fresh learner with \<open>alpha = 0.5\<close>, the update of state \<open>(0,0,1,0)\<close>, action
  \<open>(3,1)\<close>, new state \<open>(0,0,0,0)\<close> with reward \<open>-1\<close> sets the entry to \<open>-0.5\<close>.
\<close>

theorem update_rule:
  assumes "\<And>xs. set (iter xs) = set xs"
  shows "(\<exists>future. best_future_reward iter ai new_state = Inr future
           \<and> update iter ai old_state action new_state reward =
               (None, ai\<lparr>q := (q ai)((tuple old_state, action) \<mapsto>
                  get_q_value ai old_state action
                    + alpha ai * ((reward + future) - get_q_value ai old_state action))\<rparr>))
    \<and> q (snd (update iter (NimAI_init (1 / 2) eps) (PyTuple [0, 0, 1, 0]) (3, 1)
                 (PyTuple [0, 0, 0, 0]) (- 1))) (PyTuple [0, 0, 1, 0], (3, 1)) = Some (- (1 / 2))
    \<and> get_q_value (snd (update iter (NimAI_init (1 / 2) eps) (PyTuple [0, 0, 1, 0]) (3, 1)
                 (PyTuple [0, 0, 0, 0]) (- 1))) (PyTuple [0, 0, 1, 0]) (3, 1) = - (1 / 2)"
proof (intro conjI)
  from best_future_reward_returns [OF assms]
  obtain future where f: "best_future_reward iter ai new_state = Inr future" by blast
  from f update_unfold [OF f]
  show "\<exists>future. best_future_reward iter ai new_state = Inr future
           \<and> update iter ai old_state action new_state reward =
               (None, ai\<lparr>q := (q ai)((tuple old_state, action) \<mapsto>
                  get_q_value ai old_state action
                    + alpha ai * ((reward + future) - get_q_value ai old_state action))\<rparr>)"
    by blast
next
  have "available_actions (elems (PyTuple [0, 0, 0, 0])) = {}"
    by (simp add: available_actions_def available_actions_list_def pile_actions_def)
  then have b: "best_future_reward iter (NimAI_init (1 / 2) eps) (PyTuple [0, 0, 0, 0]) = Inr 0"
    by (rule best_future_reward_empty)
  let ?fresh = "NimAI_init (1 / 2) eps"
  have u: "snd (update iter ?fresh (PyTuple [0, 0, 1, 0]) (3, 1) (PyTuple [0, 0, 0, 0]) (- 1))
      = ?fresh\<lparr>q := (q ?fresh)((tuple (PyTuple [0, 0, 1, 0]), (3, 1)) \<mapsto>
          get_q_value ?fresh (PyTuple [0, 0, 1, 0]) (3, 1)
            + alpha ?fresh * ((- 1 + 0) - get_q_value ?fresh (PyTuple [0, 0, 1, 0]) (3, 1)))\<rparr>"
    by (simp only: update_unfold [OF b] snd_conv)
  show "q (snd (update iter (NimAI_init (1 / 2) eps) (PyTuple [0, 0, 1, 0]) (3, 1)
                 (PyTuple [0, 0, 0, 0]) (- 1))) (PyTuple [0, 0, 1, 0], (3, 1)) = Some (- (1 / 2))"
    unfolding u by (simp add: get_q_value_def NimAI_init_def tuple_def)
  show "get_q_value (snd (update iter (NimAI_init (1 / 2) eps) (PyTuple [0, 0, 1, 0]) (3, 1)
                 (PyTuple [0, 0, 0, 0]) (- 1))) (PyTuple [0, 0, 1, 0]) (3, 1) = - (1 / 2)"
    unfolding u by (simp add: get_q_value_def NimAI_init_def tuple_def)
qed

theorem update_rule_witness:
  "update rev \<lparr>q = [(PyTuple [0, 0, 1, 0], (2, 1)) \<mapsto> - (1 / 2)], alpha = 1 / 2, epsilon = 1 / 10\<rparr>
      (PyList [0, 0, 1, 0]) (2, 1) (PyList [0, 0, 0, 0]) (- 1)
   = (None, \<lparr>q = [(PyTuple [0, 0, 1, 0], (2, 1)) \<mapsto> - (3 / 4)], alpha = 1 / 2, epsilon = 1 / 10\<rparr>)"
proof -
  let ?ai = "\<lparr>q = [(PyTuple [0, 0, 1, 0], (2, 1)) \<mapsto> - (1 / 2)], alpha = 1 / 2, epsilon = 1 / 10\<rparr>"
  have it: "\<And>xs :: action list. set (rev xs) = set xs" by simp
  have "available_actions (elems (PyList [0, 0, 0, 0])) = {}"
    by (simp add: available_actions_def available_actions_list_def pile_actions_def)
  then have b: "best_future_reward rev ?ai (PyList [0, 0, 0, 0]) = Inr 0"
    by (rule best_future_reward_empty)
  from update_rule [of rev ?ai "PyList [0, 0, 0, 0]" "PyList [0, 0, 1, 0]" "(2, 1)" "- 1", OF it]
  obtain future where f: "best_future_reward rev ?ai (PyList [0, 0, 0, 0]) = Inr future"
    and u: "update rev ?ai (PyList [0, 0, 1, 0]) (2, 1) (PyList [0, 0, 0, 0]) (- 1) =
      (None, ?ai\<lparr>q := (q ?ai)((tuple (PyList [0, 0, 1, 0]), (2, 1)) \<mapsto>
         get_q_value ?ai (PyList [0, 0, 1, 0]) (2, 1)
           + alpha ?ai * ((- 1 + future) - get_q_value ?ai (PyList [0, 0, 1, 0]) (2, 1)))\<rparr>)"
    by blast
  from f b have "future = 0" by simp
  then show ?thesis
    unfolding u by (simp add: get_q_value_def tuple_def)
qed

section \<open>The learner: the greedy choice\<close>

lemma choice_member: "xs \<noteq> [] \<Longrightarrow> \<exists>x \<in> set xs. choice rnd xs = Inr x"
  by (simp add: choice_def)

lemma best_loop_invariant:
  assumes "best_loop ai state xs (max_q, best) = (max_q', best')"
    and "case max_q of
           None \<Rightarrow> best = [] \<and> seen = {}
         | Some m \<Rightarrow> best \<noteq> [] \<and> (\<forall>a \<in> set best. a \<in> seen \<and> get_q_value ai state a = m)
                      \<and> (\<forall>a \<in> seen. get_q_value ai state a \<le> m)"
  shows "case max_q' of
           None \<Rightarrow> xs = [] \<and> max_q = None
         | Some m \<Rightarrow> best' \<noteq> []
             \<and> (\<forall>a \<in> set best'. a \<in> seen \<union> set xs \<and> get_q_value ai state a = m)
             \<and> (\<forall>a \<in> seen \<union> set xs. get_q_value ai state a \<le> m)"
  using assms
proof (induction xs arbitrary: max_q best seen)
  case Nil
  then show ?case by (auto split: option.splits)
next
  case (Cons x xs)
  let ?v = "get_q_value ai state x"
  show ?case
  proof (cases "case max_q of None \<Rightarrow> True | Some m \<Rightarrow> ?v > m")
    case True
    with Cons.prems(1) have run: "best_loop ai state xs (Some ?v, [x]) = (max_q', best')"
      by (simp add: Let_def)
    have "case Some ?v of
           None \<Rightarrow> [x] = [] \<and> insert x seen = {}
         | Some m \<Rightarrow> [x] \<noteq> [] \<and> (\<forall>a \<in> set [x]. a \<in> insert x seen \<and> get_q_value ai state a = m)
                      \<and> (\<forall>a \<in> insert x seen. get_q_value ai state a \<le> m)"
      using True Cons.prems(2) by (auto split: option.splits)
    from Cons.IH [OF run this] show ?thesis by (auto split: option.splits)
  next
    case False
    then obtain m where m: "max_q = Some m" "?v \<le> m" by (auto split: option.splits)
    show ?thesis
    proof (cases "?v = m")
      case True
      with False m Cons.prems(1)
      have run: "best_loop ai state xs (max_q, best @ [x]) = (max_q', best')"
        by (simp add: Let_def)
      have "case max_q of
           None \<Rightarrow> best @ [x] = [] \<and> insert x seen = {}
         | Some m \<Rightarrow> best @ [x] \<noteq> []
             \<and> (\<forall>a \<in> set (best @ [x]). a \<in> insert x seen \<and> get_q_value ai state a = m)
             \<and> (\<forall>a \<in> insert x seen. get_q_value ai state a \<le> m)"
        using True m Cons.prems(2) by auto
      from Cons.IH [OF run this] m show ?thesis by (auto split: option.splits)
    next
      case neq: False
      with False m Cons.prems(1)
      have run: "best_loop ai state xs (max_q, best) = (max_q', best')"
        by (simp add: Let_def)
      have "case max_q of
           None \<Rightarrow> best = [] \<and> insert x seen = {}
         | Some m \<Rightarrow> best \<noteq> []
             \<and> (\<forall>a \<in> set best. a \<in> insert x seen \<and> get_q_value ai state a = m)
             \<and> (\<forall>a \<in> insert x seen. get_q_value ai state a \<le> m)"
        using m Cons.prems(2) by auto
      from Cons.IH [OF run this] m show ?thesis by (auto split: option.splits)
    qed
  qed
qed

lemma best_loop_argmax:
  assumes "xs \<noteq> []" and "best_loop ai state xs (None, []) = (max_q, best)"
  shows "best \<noteq> [] \<and> (\<forall>a \<in> set best. a \<in> set xs \<and> (\<forall>b \<in> set xs. get_q_value ai state b \<le> get_q_value ai state a))"
proof -
  have "case None :: real option of
           None \<Rightarrow> ([] :: action list) = [] \<and> ({} :: action set) = {}
         | Some m \<Rightarrow> ([] :: action list) \<noteq> [] \<and> (\<forall>a \<in> set []. a \<in> {} \<and> get_q_value ai state a = m)
                      \<and> (\<forall>a \<in> {}. get_q_value ai state a \<le> m)"
    by simp
  from best_loop_invariant [OF assms(2) this] assms(1)
  show ?thesis by (auto split: option.splits)
qed

lemma choose_action_none_iff:
  assumes "\<And>xs. set (iter xs) = set xs"
  shows "iter (available_actions_list (elems state)) = [] \<longleftrightarrow> available_actions (elems state) = {}"
proof -
  have "set (iter (available_actions_list (elems state))) = available_actions (elems state)"
    by (simp add: assms available_actions_def)
  then show ?thesis by (metis set_empty)
qed

lemma greedy_choice_is_best:
  assumes it: "\<And>xs. set (iter xs) = set xs"
    and greedy: "\<not> explore \<or> \<not> random_random rnd < epsilon ai"
    and ne: "available_actions (elems state) \<noteq> {}"
  shows "\<exists>a. choose_action iter rnd ai state explore = Inr (Some a)
           \<and> a \<in> available_actions (elems state)
           \<and> (\<forall>b \<in> available_actions (elems state). get_q_value ai state b \<le> get_q_value ai state a)"
proof -
  let ?xs = "iter (available_actions_list (elems state))"
  have sx: "set ?xs = available_actions (elems state)"
    by (simp add: it available_actions_def)
  with ne have xne: "?xs \<noteq> []" by auto
  obtain max_q best where run: "best_loop ai state ?xs (None, []) = (max_q, best)"
    by (cases "best_loop ai state ?xs (None, [])")
  from best_loop_argmax [OF xne run]
  have b: "best \<noteq> []"
    "\<forall>a \<in> set best. a \<in> set ?xs \<and> (\<forall>b \<in> set ?xs. get_q_value ai state b \<le> get_q_value ai state a)"
    by simp_all
  from choice_member [OF b(1), of rnd] obtain a where a: "a \<in> set best" "choice rnd best = Inr a"
    by blast
  from xne greedy run a(2) have "choose_action iter rnd ai state explore = Inr (Some a)"
    by (auto simp: choose_action_def Let_def)
  with a(1) b(2) sx show ?thesis by auto
qed

lemma choose_action_some:
  assumes it: "\<And>xs. set (iter xs) = set xs"
    and ne: "available_actions (elems state) \<noteq> {}"
  shows "\<exists>a. choose_action iter rnd ai state explore = Inr (Some a)"
proof (cases "explore \<and> random_random rnd < epsilon ai")
  case True
  let ?xs = "iter (available_actions_list (elems state))"
  from ne have xne: "?xs \<noteq> []" by (simp add: choose_action_none_iff [OF it])
  from choice_member [OF xne, of rnd] obtain a where "choice rnd ?xs = Inr a" by blast
  with True xne have "choose_action iter rnd ai state explore = Inr (Some a)"
    by (simp add: choose_action_def Let_def)
  then show ?thesis by blast
next
  case False
  then have "\<not> explore \<or> \<not> random_random rnd < epsilon ai" by blast
  from greedy_choice_is_best [of iter explore rnd ai state, OF it this ne]
  show ?thesis by blast
qed

text \<open>
  C3. When \<open>choose_action\<close> does not explore (the flag is false, or the draw is not below
  the exploration rate) and the state has a legal action, it returns a legal action whose
  value equals the maximum of the values of all legal actions, so no legal action has a
  strictly greater value. In either mode it returns \<open>None\<close> exactly when the state has no
  legal action.
\<close>

theorem choose_action_greedy_max:
  assumes "\<And>xs. set (iter xs) = set xs"
  shows "((\<not> explore \<or> \<not> random_random rnd < epsilon ai) \<and> available_actions (elems state) \<noteq> {} \<longrightarrow>
           (\<exists>a. choose_action iter rnd ai state explore = Inr (Some a)
              \<and> a \<in> available_actions (elems state)
              \<and> get_q_value ai state a = Max (get_q_value ai state ` available_actions (elems state))
              \<and> \<not> (\<exists>b \<in> available_actions (elems state). get_q_value ai state a < get_q_value ai state b)))
    \<and> (choose_action iter rnd ai state explore = Inr None \<longleftrightarrow> available_actions (elems state) = {})"
proof (intro conjI impI)
  assume h: "(\<not> explore \<or> \<not> random_random rnd < epsilon ai) \<and> available_actions (elems state) \<noteq> {}"
  then have greedy: "\<not> explore \<or> \<not> random_random rnd < epsilon ai"
    and ne: "available_actions (elems state) \<noteq> {}"
    by blast+
  from greedy_choice_is_best [of iter explore rnd ai state, OF assms greedy ne]
  obtain a where a: "choose_action iter rnd ai state explore = Inr (Some a)"
    "a \<in> available_actions (elems state)"
    "\<forall>b \<in> available_actions (elems state). get_q_value ai state b \<le> get_q_value ai state a"
    by blast
  have "Max (get_q_value ai state ` available_actions (elems state)) = get_q_value ai state a"
  proof (rule Max_eqI)
    show "finite (get_q_value ai state ` available_actions (elems state))"
      by (simp add: finite_available_actions)
    show "y \<le> get_q_value ai state a" if "y \<in> get_q_value ai state ` available_actions (elems state)" for y
      using that a(3) by auto
    show "get_q_value ai state a \<in> get_q_value ai state ` available_actions (elems state)"
      using a(2) by simp
  qed
  with a show "\<exists>a. choose_action iter rnd ai state explore = Inr (Some a)
              \<and> a \<in> available_actions (elems state)
              \<and> get_q_value ai state a = Max (get_q_value ai state ` available_actions (elems state))
              \<and> \<not> (\<exists>b \<in> available_actions (elems state). get_q_value ai state a < get_q_value ai state b)"
    by (intro exI [of _ a]) (auto simp: not_less)
next
  show "choose_action iter rnd ai state explore = Inr None \<longleftrightarrow> available_actions (elems state) = {}"
  proof
    assume n: "choose_action iter rnd ai state explore = Inr None"
    show "available_actions (elems state) = {}"
    proof (rule ccontr)
      assume "available_actions (elems state) \<noteq> {}"
      from choose_action_some [of iter state rnd ai explore, OF assms this] n
      show False by auto
    qed
  next
    assume "available_actions (elems state) = {}"
    then have "iter (available_actions_list (elems state)) = []"
      by (simp add: choose_action_none_iff [OF assms])
    then show "choose_action iter rnd ai state explore = Inr None"
      by (simp add: choose_action_def)
  qed
qed

theorem choose_action_greedy_max_witness:
  "choose_action rev \<lparr>random_random = 1 / 2, randbelow = 1\<rparr>
      \<lparr>q = [(PyTuple [0, 0, 0, 2], (3, 1)) \<mapsto> - (1 / 2)], alpha = 1 / 2, epsilon = 1 / 10\<rparr>
      (PyList [0, 0, 0, 2]) True = Inr (Some (3, 2))"
proof -
  let ?ai = "\<lparr>q = [(PyTuple [0, 0, 0, 2], (3, 1)) \<mapsto> - (1 / 2)], alpha = 1 / 2, epsilon = 1 / 10\<rparr>"
  let ?rnd = "\<lparr>random_random = 1 / 2, randbelow = 1\<rparr>"
  let ?s = "PyList [0, 0, 0, 2]"
  have it: "\<And>xs :: action list. set (rev xs) = set xs" by simp
  have acts: "available_actions [0, 0, 0, 2] = {(3, 1), (3, 2)}"
    by (auto simp: available_actions_def available_actions_list_def pile_actions_def upto.simps)
  have vals: "get_q_value ?ai ?s (3, 1) = - (1 / 2)" "get_q_value ?ai ?s (3, 2) = 0"
    by (simp_all add: get_q_value_def tuple_def)
  have pre: "(\<not> True \<or> \<not> random_random ?rnd < epsilon ?ai) \<and> available_actions (elems ?s) \<noteq> {}"
    by (simp add: acts)
  from choose_action_greedy_max [of rev True ?rnd ?ai ?s, OF it, THEN conjunct1, THEN mp, OF pre]
  obtain a where a: "choose_action rev ?rnd ?ai ?s True = Inr (Some a)"
    "a \<in> available_actions (elems ?s)"
    "\<not> (\<exists>b \<in> available_actions (elems ?s). get_q_value ?ai ?s a < get_q_value ?ai ?s b)"
    by blast
  from a(2) acts have "a = (3, 1) \<or> a = (3, 2)" by simp
  moreover have "a \<noteq> (3, 1)"
  proof
    assume "a = (3, 1)"
    with a(3) acts have "\<not> get_q_value ?ai ?s (3, 1) < get_q_value ?ai ?s (3, 2)" by simp
    then show False by (simp add: vals)
  qed
  ultimately have "a = (3, 2)" by simp
  with a(1) show ?thesis by simp
qed

end
